theory Spec2Isabelle
  imports Main "HOL-Library.Sublist"
begin

section \<open>Text values\<close>

text \<open>
  \<^verbatim>\<open>build_webcontent.py\<close> works on Python \<^verbatim>\<open>str\<close> values: sequences of Unicode code
  points. A character is modelled by its code point (a natural number), a string by the
  list of its code points. Isabelle's own \<^typ>\<open>char\<close> has eight bits only and could not
  carry the whitespace characters beyond Latin-1 that \<^verbatim>\<open>str.strip\<close> and \<^verbatim>\<open>\s\<close> recognise.
  \<open>str\<close> reads an ASCII literal of the source as such a list.
\<close>

type_synonym pychar = nat
type_synonym pystr = "nat list"

definition str :: "string \<Rightarrow> pystr" where
  "str s = map of_char s"

abbreviation BACKSLASH :: pychar where "BACKSLASH \<equiv> 92"
abbreviation DQUOTE :: pychar where "DQUOTE \<equiv> 34"
abbreviation NEWLINE :: pychar where "NEWLINE \<equiv> 10"
abbreviation CR :: pychar where "CR \<equiv> 13"
abbreviation TAB :: pychar where "TAB \<equiv> 9"
abbreviation LETTER_n :: pychar where "LETTER_n \<equiv> 110"
abbreviation LETTER_t :: pychar where "LETTER_t \<equiv> 116"
abbreviation SPACE :: pychar where "SPACE \<equiv> 32"
abbreviation SLASH :: pychar where "SLASH \<equiv> 47"
abbreviation STAR :: pychar where "STAR \<equiv> 42"

text \<open>
  \<^verbatim>\<open>str.isspace\<close> of one character. \<^verbatim>\<open>str.strip()\<close> and the class \<^verbatim>\<open>\s\<close> of \<^verbatim>\<open>re\<close> (on a
  \<^verbatim>\<open>str\<close> pattern) use the same set of code points: U+0009 to U+000D, U+001C to U+0020,
  U+0085, U+00A0, U+1680, U+2000 to U+200A, U+2028, U+2029, U+202F, U+205F and U+3000.
\<close>

definition isspace :: "pychar \<Rightarrow> bool" where
  "isspace c \<longleftrightarrow>
     (0x09 \<le> c \<and> c \<le> 0x0D) \<or> (0x1C \<le> c \<and> c \<le> 0x20) \<or> c = 0x85 \<or> c = 0xA0
     \<or> c = 0x1680 \<or> (0x2000 \<le> c \<and> c \<le> 0x200A) \<or> c = 0x2028 \<or> c = 0x2029
     \<or> c = 0x202F \<or> c = 0x205F \<or> c = 0x3000"

text \<open>\<^verbatim>\<open>s.strip()\<close>: the whitespace at both ends of \<open>s\<close> is removed.\<close>

definition strip :: "pystr \<Rightarrow> pystr" where
  "strip s = rev (dropWhile isspace (rev (dropWhile isspace s)))"

text \<open>
  \<^verbatim>\<open>s.split(sep)\<close> for a separator of one character: the pieces between the separators,
  empty pieces included; the empty string gives one empty piece. The result is never the
  empty list, so the first branch of the \<open>case\<close> is not reached.
\<close>

fun split_on :: "pychar \<Rightarrow> pystr \<Rightarrow> pystr list" where
  "split_on sep [] = [[]]"
| "split_on sep (c # cs) =
    (if c = sep then [] # split_on sep cs
     else (case split_on sep cs of
             [] \<Rightarrow> [[c]]
           | piece # pieces \<Rightarrow> (c # piece) # pieces))"

text \<open>\<^verbatim>\<open>sep.join(xs)\<close>.\<close>

fun str_join :: "pystr \<Rightarrow> pystr list \<Rightarrow> pystr" where
  "str_join sep [] = []"
| "str_join sep [x] = x"
| "str_join sep (x # y # ys) = x @ sep @ str_join sep (y # ys)"

text \<open>
  \<^verbatim>\<open>s.replace(old, new)\<close> with no count: every occurrence of \<open>old\<close> is replaced, the
  occurrences found from left to right, the search going on after the end of each
  occurrence. For the empty \<open>old\<close> Python puts \<open>new\<close> before every character and at the
  end. \<open>contains s old\<close> is \<^verbatim>\<open>old in s\<close>.
\<close>

function str_replace :: "pystr \<Rightarrow> pystr \<Rightarrow> pystr \<Rightarrow> pystr" where
  "str_replace [] old new = (if old = [] then new else [])"
| "str_replace (c # cs) old new =
    (if old = [] then new @ c # str_replace cs old new
     else if prefix old (c # cs) then new @ str_replace (drop (length old) (c # cs)) old new
     else c # str_replace cs old new)"
  by pat_completeness auto
termination
  by (relation "measure (\<lambda>(s, old, new). length s)") (auto simp: neq_Nil_conv)

fun contains :: "pystr \<Rightarrow> pystr \<Rightarrow> bool" where
  "contains [] old = (old = [])"
| "contains (c # cs) old = (prefix old (c # cs) \<or> contains cs old)"

text \<open>\<^verbatim>\<open>str(n)\<close> of a natural number: its decimal digits.\<close>

function decimal :: "nat \<Rightarrow> pystr" where
  "decimal n = (if n < 10 then [48 + n] else decimal (n div 10) @ [48 + n mod 10])"
  by pat_completeness auto
termination
  by (relation "measure id") auto

declare decimal.simps [simp del]

section \<open>The literal escaper: \<^verbatim>\<open>escape_for_c\<close>\<close>

text \<open>
  \<^verbatim>\<open>
  def escape_for_c(content):
      result = []
      for char in content:
          if char == '\\':   result.append('\\\\')
          elif char == '"':  result.append('\\"')
          elif char == '\n': result.append('\\n')
          elif char == '\r': pass
          elif char == '\t': result.append('\\t')
          else:              result.append(char)
      return ''.join(result)
  \<close>
  The \<^verbatim>\<open>for\<close> loop is \<open>escape_loop\<close>: it walks the content and carries the list
  \<^verbatim>\<open>result\<close>, appending at its end as \<^verbatim>\<open>list.append\<close> does. \<^verbatim>\<open>''.join\<close> of a list of
  strings is \<^const>\<open>concat\<close>.
\<close>

fun escape_loop :: "pystr \<Rightarrow> pystr list \<Rightarrow> pystr list" where
  "escape_loop [] result = result"
| "escape_loop (ch # content) result =
    (if ch = BACKSLASH then escape_loop content (result @ [[BACKSLASH, BACKSLASH]])
     else if ch = DQUOTE then escape_loop content (result @ [[BACKSLASH, DQUOTE]])
     else if ch = NEWLINE then escape_loop content (result @ [[BACKSLASH, LETTER_n]])
     else if ch = CR then escape_loop content result
     else if ch = TAB then escape_loop content (result @ [[BACKSLASH, LETTER_t]])
     else escape_loop content (result @ [[ch]]))"

definition escape_for_c :: "pystr \<Rightarrow> pystr" where
  "escape_for_c content = concat (escape_loop content [])"

section \<open>The JS normalizer: \<^verbatim>\<open>minify_js\<close>\<close>

text \<open>
  \<^verbatim>\<open>
  def minify_js(content):
      lines = content.split('\n')
      result = []
      for line in lines:
          stripped = line.strip()
          if stripped:
              result.append(stripped)
      return '\n'.join(result)
  \<close>
\<close>

fun minify_js_loop :: "pystr list \<Rightarrow> pystr list \<Rightarrow> pystr list" where
  "minify_js_loop [] result = result"
| "minify_js_loop (line # lines) result =
    (let stripped = strip line
     in if stripped \<noteq> [] then minify_js_loop lines (result @ [stripped])
        else minify_js_loop lines result)"

definition minify_js :: "pystr \<Rightarrow> pystr" where
  "minify_js content = str_join [NEWLINE] (minify_js_loop (split_on NEWLINE content) [])"

section \<open>The CSS normalizer: \<^verbatim>\<open>minify_css\<close>\<close>

text \<open>
  \<^verbatim>\<open>
  def minify_css(content):
      content = re.sub(r'/\*.*?\*/', '', content, flags=re.DOTALL)
      content = re.sub(r'\s+', ' ', content)
      content = re.sub(r'\s*([{}:;,])\s*', r'\1', content)
      return content.strip()
  \<close>
  Each \<^verbatim>\<open>re.sub\<close> scans its input once, from left to right: at the current position it
  tries the pattern; on a match the replacement is emitted and the scan goes on after the
  match; else the character at the position is copied and the scan moves one character
  on. None of the three patterns matches the empty string. Each substitution is modelled
  by a function that does this scan for its pattern.

  \<open>sub_comments\<close> is the first substitution. The pattern matches at a position where
  \<^verbatim>\<open>/*\<close> stands and a \<^verbatim>\<open>*/\<close> begins two characters later or further; being lazy, with
  \<^verbatim>\<open>DOTALL\<close>, it ends at the first such \<^verbatim>\<open>*/\<close>. \<open>find_close t\<close> looks for the first \<^verbatim>\<open>*/\<close>
  in \<open>t\<close> and returns the text after it.
\<close>

fun find_close :: "pystr \<Rightarrow> pystr option" where
  "find_close [] = None"
| "find_close (c # cs) =
    (if prefix [STAR, SLASH] (c # cs) then Some (drop 2 (c # cs)) else find_close cs)"

lemma find_close_length: "find_close t = Some r \<Longrightarrow> length r < length t"
  by (induction t) (auto split: if_splits)

function sub_comments :: "pystr \<Rightarrow> pystr" where
  "sub_comments [] = []"
| "sub_comments (c # cs) =
    (if prefix [SLASH, STAR] (c # cs) then
       (case find_close (drop 2 (c # cs)) of
          Some rest \<Rightarrow> sub_comments rest
        | None \<Rightarrow> c # sub_comments cs)
     else c # sub_comments cs)"
  by pat_completeness auto
termination
proof (relation "measure length")
  show "wf (measure length)" by simp
next
  fix c :: pychar and cs rest :: pystr
  assume "find_close (drop 2 (c # cs)) = Some rest"
  then have "length rest < length (drop 2 (c # cs))" by (rule find_close_length)
  then show "(rest, c # cs) \<in> measure length" by simp
qed simp_all

text \<open>
  The second substitution: a maximal run of whitespace (the pattern is greedy) becomes
  one space.
\<close>

function sub_whitespace :: "pystr \<Rightarrow> pystr" where
  "sub_whitespace [] = []"
| "sub_whitespace (c # cs) =
    (if isspace c then SPACE # sub_whitespace (dropWhile isspace cs)
     else c # sub_whitespace cs)"
  by pat_completeness auto
termination
  by (relation "measure length") (simp_all add: length_dropWhile_le less_Suc_eq_le)

text \<open>
  The third substitution. The special characters are those of the class \<^verbatim>\<open>[{}:;,]\<close>. At a
  special character the match is the character and the
  whitespace after it. At a whitespace character the greedy \<^verbatim>\<open>\s*\<close> takes the whole run;
  the match succeeds when a special character follows the run (giving the run back
  cannot help: the characters given back are whitespace, not special), and then it also
  takes the whitespace after the special character. Else there is no match at this
  position and the character is copied.
\<close>

definition is_special :: "pychar \<Rightarrow> bool" where
  "is_special c \<longleftrightarrow> c = 0x7B \<or> c = 0x7D \<or> c = 0x3A \<or> c = 0x3B \<or> c = 0x2C"

function sub_special :: "pystr \<Rightarrow> pystr" where
  "sub_special [] = []"
| "sub_special (c # cs) =
    (if is_special c then c # sub_special (dropWhile isspace cs)
     else if isspace c then
       (case dropWhile isspace cs of
          [] \<Rightarrow> c # sub_special cs
        | x # r \<Rightarrow>
            if is_special x then x # sub_special (dropWhile isspace r)
            else c # sub_special cs)
     else c # sub_special cs)"
  by pat_completeness auto
termination
proof (relation "measure length")
  show "wf (measure length)" by simp
next
  fix c :: pychar and cs :: pystr and x r
  assume "dropWhile isspace cs = x # r"
  then have "length (x # r) \<le> length cs" by (metis length_dropWhile_le)
  moreover have "length (dropWhile isspace r) \<le> length r" by (rule length_dropWhile_le)
  ultimately show "(dropWhile isspace r, c # cs) \<in> measure length" by simp
qed (simp_all add: length_dropWhile_le less_Suc_eq_le)

definition minify_css :: "pystr \<Rightarrow> pystr" where
  "minify_css content = strip (sub_special (sub_whitespace (sub_comments content)))"

section \<open>The HTML assembler\<close>

text \<open>
  \<^verbatim>\<open>
  html = html.replace('<link rel="stylesheet" href="style.css">', f'<style>{css}</style>')
  html = html.replace('<script src="app.js"></script>', f'<script>{js}</script>')
  \<close>
  The two statements of \<^verbatim>\<open>main\<close> are \<open>inject_css\<close> and \<open>inject_js\<close>.
\<close>

definition LINK_TAG :: pystr where
  \<open>LINK_TAG = str ''<link rel="stylesheet" href="style.css">''\<close>

definition SCRIPT_TAG :: pystr where
  \<open>SCRIPT_TAG = str ''<script src="app.js"></script>''\<close>

definition inject_css :: "pystr \<Rightarrow> pystr \<Rightarrow> pystr" where
  "inject_css html css = str_replace html LINK_TAG (str ''<style>'' @ css @ str ''</style>'')"

definition inject_js :: "pystr \<Rightarrow> pystr \<Rightarrow> pystr" where
  "inject_js html js = str_replace html SCRIPT_TAG (str ''<script>'' @ js @ str ''</script>'')"

section \<open>The run: \<^verbatim>\<open>main\<close>\<close>

text \<open>
  \<^verbatim>\<open>main\<close> reads three files, writes one and prints two lines. Its state is a \<open>world\<close>:
  \<open>files w path\<close> is the text a read of \<open>path\<close> returns, or \<open>None\<close> when the file cannot
  be opened or read (it is missing, unreadable or not valid UTF-8); \<open>write_protected w path\<close>
  says that \<open>path\<close> cannot be opened for writing; \<open>stdout w\<close> holds the lines printed so
  far. A failed \<^verbatim>\<open>open\<close> raises, and \<^verbatim>\<open>main\<close> catches nothing: the run ends there, with the
  error as its result and the world as it was at that point.

  \<^verbatim>\<open>open(path, 'w')\<close> empties the file, and every \<^verbatim>\<open>f.write(s)\<close> appends \<open>s\<close> to it. The
  texts are those of Python's text layer (newline translation and encoding are below
  the model), and a write that fails half way is not modelled.
\<close>

datatype error = FileAccessError string | WriteFailure string

record world =
  files :: "string \<Rightarrow> pystr option"
  write_protected :: "string \<Rightarrow> bool"
  stdout :: "pystr list"

definition read_text :: "world \<Rightarrow> string \<Rightarrow> error + pystr" where
  "read_text w path =
    (case files w path of None \<Rightarrow> Inl (FileAccessError path) | Some content \<Rightarrow> Inr content)"

definition open_w :: "world \<Rightarrow> string \<Rightarrow> error + world" where
  "open_w w path =
    (if write_protected w path then Inl (WriteFailure path)
     else Inr (w\<lparr>files := (files w)(path \<mapsto> [])\<rparr>))"

definition fwrite :: "string \<Rightarrow> pystr \<Rightarrow> world \<Rightarrow> world" where
  "fwrite path s w =
    w\<lparr>files := (files w)(path \<mapsto> (case files w path of None \<Rightarrow> s | Some content \<Rightarrow> content @ s))\<rparr>"

definition print_line :: "pystr \<Rightarrow> world \<Rightarrow> world" where
  "print_line s w = w\<lparr>stdout := stdout w @ [s]\<rparr>"

definition write_header :: "pystr \<Rightarrow> world \<Rightarrow> error + world" where
  \<open>write_header escaped w =
    (case open_w w ''WebContent.h'' of
       Inl e \<Rightarrow> Inl e
     | Inr w0 \<Rightarrow>
         let w1 = fwrite ''WebContent.h'' (str ''#ifndef WEB_CONTENT_H\<newline>'') w0;
             w2 = fwrite ''WebContent.h'' (str ''#define WEB_CONTENT_H\<newline>\<newline>'') w1;
             w3 = fwrite ''WebContent.h'' (str ''#include <pgmspace.h>\<newline>\<newline>'') w2;
             w4 = fwrite ''WebContent.h'' (str ''const char INDEX_HTML[] PROGMEM = "'') w3;
             w5 = fwrite ''WebContent.h'' escaped w4;
             w6 = fwrite ''WebContent.h'' (str ''";\<newline>\<newline>'') w5;
             w7 = fwrite ''WebContent.h'' (str ''#endif\<newline>'') w6
         in Inr w7)\<close>

definition main :: "world \<Rightarrow> (error + unit) \<times> world" where
  "main w =
    (case read_text w ''data/index.html'' of
       Inl e \<Rightarrow> (Inl e, w)
     | Inr html \<Rightarrow>
    (case read_text w ''data/style.css'' of
       Inl e \<Rightarrow> (Inl e, w)
     | Inr css_text \<Rightarrow>
    let css = minify_css css_text in
    (case read_text w ''data/app.js'' of
       Inl e \<Rightarrow> (Inl e, w)
     | Inr js_text \<Rightarrow>
    let js = minify_js js_text;
        html1 = inject_css html css;
        html2 = inject_js html1 js;
        escaped = escape_for_c html2
    in
    (case write_header escaped w of
       Inl e \<Rightarrow> (Inl e, w)
     | Inr w1 \<Rightarrow>
         let w2 = print_line (str ''WebContent.h regenerated successfully!'') w1;
             w3 = print_line (str ''Total size: '' @ decimal (length escaped) @ str '' chars'') w2
         in (Inr (), w3)))))"

section \<open>Notions of the specification\<close>

text \<open>
  The table of the specification, one character at a time, in the order the
  specification lists its cases.
\<close>

definition spec_escape_char :: "pychar \<Rightarrow> pystr" where
  "spec_escape_char c =
    (if c = BACKSLASH then [BACKSLASH, BACKSLASH]
     else if c = DQUOTE then [BACKSLASH, DQUOTE]
     else if c = NEWLINE then [BACKSLASH, LETTER_n]
     else if c = CR then []
     else if c = TAB then [BACKSLASH, LETTER_t]
     else [c])"

text \<open>
  Two ways of counting the newline escape in an escaped text. \<open>spec_count_seq p s\<close>
  counts the positions of \<open>s\<close> at which the sequence \<open>p\<close> stands. \<open>count_newline_escapes\<close>
  reads the text as the body of a C string literal, left to right: a backslash and the
  character after it form one escape sequence, and the sequences backslash-\<open>n\<close> are
  counted.
\<close>

fun spec_count_seq :: "pystr \<Rightarrow> pystr \<Rightarrow> nat" where
  "spec_count_seq p [] = 0"
| "spec_count_seq p (c # cs) = (if prefix p (c # cs) then 1 else 0) + spec_count_seq p cs"

fun count_newline_escapes :: "pystr \<Rightarrow> nat" where
  "count_newline_escapes [] = 0"
| "count_newline_escapes [c] = 0"
| "count_newline_escapes (c # d # cs) =
    (if c = BACKSLASH then (if d = LETTER_n then 1 else 0) + count_newline_escapes cs
     else count_newline_escapes (d # cs))"

text \<open>
  The lines the specification of the JS normalizer speaks of: the input split at
  newlines, every line trimmed, the lines that are empty after trimming left out.
\<close>

definition trimmed_nonempty_lines :: "pystr \<Rightarrow> pystr list" where
  "trimmed_nonempty_lines s = filter (\<lambda>l. l \<noteq> []) (map strip (split_on NEWLINE s))"

text \<open>
  \<open>has_comment s\<close>: a comment span \<^verbatim>\<open>/* ... */\<close> stands somewhere in \<open>s\<close>. \<open>no_ws_run s\<close>: no
  two whitespace characters are neighbours in \<open>s\<close>. \<open>spec_drop_adjacent None s\<close> deletes
  from \<open>s\<close> every space that has one of the characters \<^verbatim>\<open>{ } : ; ,\<close> as a neighbour (its
  first argument is the character before the current position).
\<close>

fun has_comment :: "pystr \<Rightarrow> bool" where
  "has_comment [] = False"
| "has_comment (c # cs) =
    ((prefix [SLASH, STAR] (c # cs) \<and> find_close (drop 2 (c # cs)) \<noteq> None) \<or> has_comment cs)"

fun no_ws_run :: "pystr \<Rightarrow> bool" where
  "no_ws_run [] = True"
| "no_ws_run [c] = True"
| "no_ws_run (c # d # cs) = (\<not> (isspace c \<and> isspace d) \<and> no_ws_run (d # cs))"

fun spec_drop_adjacent :: "pychar option \<Rightarrow> pystr \<Rightarrow> pystr" where
  "spec_drop_adjacent prev [] = []"
| "spec_drop_adjacent prev (c # cs) =
    (if c = SPACE \<and>
        ((case prev of None \<Rightarrow> False | Some p \<Rightarrow> is_special p)
         \<or> (case cs of [] \<Rightarrow> False | d # ds \<Rightarrow> is_special d))
     then spec_drop_adjacent (Some c) cs
     else c # spec_drop_adjacent (Some c) cs)"


text \<open>
  \<open>with_comments parts t\<close> is a stylesheet written as its pieces: every pair \<open>(a, b)\<close> of
  \<open>parts\<close> is a text \<open>a\<close> followed by a comment of body \<open>b\<close>, and \<open>t\<close> is the text after
  the last comment. \<open>starts k u\<close>: the text \<open>u\<close> begins with the character \<open>k\<close>.
  \<open>has_close t\<close>: a \<^verbatim>\<open>*/\<close> stands somewhere in \<open>t\<close>.
\<close>

fun with_comments :: "(pystr \<times> pystr) list \<Rightarrow> pystr \<Rightarrow> pystr" where
  "with_comments [] t = t"
| "with_comments ((a, b) # ps) t = a @ [SLASH, STAR] @ b @ [STAR, SLASH] @ with_comments ps t"

definition starts :: "pychar \<Rightarrow> pystr \<Rightarrow> bool" where
  "starts k u = (case u of [] \<Rightarrow> False | x # xs \<Rightarrow> x = k)"

definition has_close :: "pystr \<Rightarrow> bool" where
  "has_close t \<longleftrightarrow> find_close t \<noteq> None"

text \<open>
  The substitution as the specification words it: the first occurrence only.
  \<open>no_border old (tl old)\<close>: no proper non-empty end of \<open>old\<close> is also a beginning of
  \<open>old\<close>, so that two occurrences of \<open>old\<close> in a text never overlap.
\<close>

fun spec_replace_first :: "pystr \<Rightarrow> pystr \<Rightarrow> pystr \<Rightarrow> pystr" where
  "spec_replace_first [] old new = (if old = [] then new else [])"
| "spec_replace_first (c # cs) old new =
    (if prefix old (c # cs) then new @ drop (length old) (c # cs)
     else c # spec_replace_first cs old new)"

fun no_border :: "pystr \<Rightarrow> pystr \<Rightarrow> bool" where
  "no_border old [] = True"
| "no_border old (c # cs) = (\<not> prefix (c # cs) old \<and> no_border old cs)"

text \<open>
  The header file as the specification gives it, around the escaped literal \<open>e\<close>.
\<close>

definition spec_header :: "pystr \<Rightarrow> pystr" where
  \<open>spec_header e =
     str ''#ifndef WEB_CONTENT_H\<newline>#define WEB_CONTENT_H\<newline>\<newline>#include <pgmspace.h>\<newline>\<newline>const char INDEX_HTML[] PROGMEM = "''
     @ e @ str ''";\<newline>\<newline>#endif\<newline>''\<close>

text \<open>
  A world for the examples: the markup and the stylesheet are there, the script is
  missing, and every path can be written.
\<close>

definition example_world :: world where
  \<open>example_world =
     \<lparr>files = [''data/index.html'' \<mapsto> str ''<html><link rel="stylesheet" href="style.css"></html>'',
               ''data/style.css'' \<mapsto> str ''a{color:  red;}''],
      write_protected = (\<lambda>path. False),
      stdout = []\<rparr>\<close>

text \<open>
  The world of the first end-to-end scenario of the specification: the markup holds the
  link tag and no script tag.
\<close>

definition scenario_world :: world where
  \<open>scenario_world =
     \<lparr>files = [''data/index.html'' \<mapsto> str ''<html><link rel="stylesheet" href="style.css"></html>'',
               ''data/style.css'' \<mapsto> str ''a{color:  red;}'',
               ''data/app.js'' \<mapsto> str ''foo();\<newline>\<newline>bar();''],
      write_protected = (\<lambda>path. False),
      stdout = []\<rparr>\<close>

section \<open>Properties of the literal escaper\<close>

lemma escape_loop_acc: "escape_loop content result = result @ escape_loop content []"
proof (induction content arbitrary: result)
  case Nil
  show ?case by simp
next
  case (Cons ch content)
  have step: "escape_loop content (result @ [x]) = result @ escape_loop content [x]" for x
    using Cons.IH [of "result @ [x]"] Cons.IH [of "[x]"] by simp
  show ?case
    using step Cons.IH [of result] by simp
qed

lemma escape_loop_single:
  "concat (escape_loop content [x]) = x @ concat (escape_loop content [])"
  using escape_loop_acc [of content "[x]"] by simp

lemma escape_loop_map:
  "concat (escape_loop content []) = concat (map spec_escape_char content)"
  by (induction content) (simp_all add: escape_loop_single spec_escape_char_def)

lemma escape_for_c_Nil: "escape_for_c [] = []"
  by (simp add: escape_for_c_def)

lemma escape_for_c_Cons: "escape_for_c (c # s) = spec_escape_char c @ escape_for_c s"
  by (simp add: escape_for_c_def escape_loop_single spec_escape_char_def)

lemma escape_for_c_append: "escape_for_c (a @ b) = escape_for_c a @ escape_for_c b"
  by (simp add: escape_for_c_def escape_loop_map)

lemma count_newline_escapes_step:
  "count_newline_escapes (spec_escape_char c @ t) =
     (if c = NEWLINE then 1 else 0) + count_newline_escapes t"
proof (cases t)
  case Nil
  then show ?thesis by (simp add: spec_escape_char_def)
next
  case (Cons d ds)
  then show ?thesis by (simp add: spec_escape_char_def)
qed

text \<open>
  Claim C5. The literal escaper maps each character on its own, in the order of the
  input, by the table of the specification (backslash to two backslashes, double quote
  to backslash and double quote, newline to backslash and \<open>n\<close>, carriage return to
  nothing, tab to backslash and \<open>t\<close>, any other character to itself), and its output is
  the concatenation of the results in that order.
\<close>

theorem escape_for_c_per_character:
  "escape_for_c content = concat (map spec_escape_char content)"
  by (simp add: escape_for_c_def escape_loop_map)

theorem escape_for_c_per_character_witness:
  \<open>escape_for_c (str ''a"\<newline>'' @ [CR, TAB, BACKSLASH]) =
     [97, BACKSLASH, DQUOTE, BACKSLASH, LETTER_n, BACKSLASH, LETTER_t, BACKSLASH, BACKSLASH]
   \<and> concat (map spec_escape_char (str ''a"\<newline>'' @ [CR, TAB, BACKSLASH])) =
     [97, BACKSLASH, DQUOTE, BACKSLASH, LETTER_n, BACKSLASH, LETTER_t, BACKSLASH, BACKSLASH]\<close>
  using escape_for_c_per_character [of \<open>str ''a"\<newline>'' @ [CR, TAB, BACKSLASH]\<close>]
  by (simp add: str_def spec_escape_char_def)

text \<open>
  Claim C9. The literal escaper is a monoid homomorphism for concatenation: the escape
  of \<open>a @ b\<close> is the escape of \<open>a\<close> followed by the escape of \<open>b\<close>, and the escape of the
  empty string is the empty string.
\<close>

theorem escape_for_c_homomorphism:
  "escape_for_c (a @ b) = escape_for_c a @ escape_for_c b \<and> escape_for_c [] = []"
  by (simp add: escape_for_c_append escape_for_c_Nil)

theorem escape_for_c_homomorphism_witness:
  "escape_for_c ([BACKSLASH] @ [LETTER_n]) = escape_for_c [BACKSLASH] @ escape_for_c [LETTER_n]
   \<and> escape_for_c ([BACKSLASH] @ [LETTER_n]) = [BACKSLASH, BACKSLASH, LETTER_n]"
  using escape_for_c_homomorphism [of "[BACKSLASH]" "[LETTER_n]"]
  by (simp add: escape_for_c_Cons escape_for_c_Nil spec_escape_char_def)

text \<open>
  Claim C3, as the code has it. The literal escaper is a function of its input (its
  model is a total HOL function, so equal inputs give equal outputs). No carriage return
  stands in its output, and removing the carriage returns from the input does not change
  the output. The number of newlines of the input is the number of backslash-\<open>n\<close> escape
  sequences of the output, when the output is read left to right as a string literal
  (every backslash taken together with the character after it).
\<close>

theorem escape_for_c_newlines:
  "CR \<notin> set (escape_for_c s)
   \<and> escape_for_c (filter (\<lambda>c. c \<noteq> CR) s) = escape_for_c s
   \<and> count_newline_escapes (escape_for_c s) = count_list s NEWLINE"
proof -
  have a: "CR \<notin> set (escape_for_c s)"
    by (induction s) (simp_all add: escape_for_c_Nil escape_for_c_Cons spec_escape_char_def)
  have b: "escape_for_c (filter (\<lambda>c. c \<noteq> CR) s) = escape_for_c s"
    by (induction s) (simp_all add: escape_for_c_Nil escape_for_c_Cons spec_escape_char_def)
  have c: "count_newline_escapes (escape_for_c s) = count_list s NEWLINE"
    by (induction s) (simp_all add: escape_for_c_Nil escape_for_c_Cons count_newline_escapes_step)
  from a b c show ?thesis by simp
qed

theorem escape_for_c_newlines_witness:
  "escape_for_c [BACKSLASH, LETTER_n, CR, NEWLINE] = [BACKSLASH, BACKSLASH, LETTER_n, BACKSLASH, LETTER_n]
   \<and> count_newline_escapes (escape_for_c [BACKSLASH, LETTER_n, CR, NEWLINE]) = 1
   \<and> count_list [BACKSLASH, LETTER_n, CR, NEWLINE] NEWLINE = 1"
  using escape_for_c_newlines [of "[BACKSLASH, LETTER_n, CR, NEWLINE]"]
  by (simp add: escape_for_c_Cons escape_for_c_Nil spec_escape_char_def)

text \<open>
  Claim C3, as stated, fails. The input of two characters, a backslash and the letter
  \<open>n\<close>, has no newline; its escape is backslash, backslash, \<open>n\<close>, in which the
  two-character sequence backslash-\<open>n\<close> stands once (at the second position).
\<close>

theorem escape_for_c_newlines_counterexample:
  "escape_for_c [BACKSLASH, LETTER_n] = [BACKSLASH, BACKSLASH, LETTER_n]
   \<and> count_list [BACKSLASH, LETTER_n] NEWLINE = 0
   \<and> spec_count_seq [BACKSLASH, LETTER_n] (escape_for_c [BACKSLASH, LETTER_n]) = 1"
  by (simp add: escape_for_c_Cons escape_for_c_Nil spec_escape_char_def)

section \<open>Properties of the JS normalizer\<close>

lemma minify_js_loop_filter:
  "minify_js_loop lines result = result @ filter (\<lambda>l. l \<noteq> []) (map strip lines)"
  by (induction lines arbitrary: result) (simp_all add: Let_def)

lemma minify_js_lines: "minify_js s = str_join [NEWLINE] (trimmed_nonempty_lines s)"
  by (simp add: minify_js_def trimmed_nonempty_lines_def minify_js_loop_filter)

lemma split_on_not_Nil: "split_on sep s \<noteq> []"
  by (induction s) (auto split: list.splits)

lemma split_on_no_sep: "l \<in> set (split_on sep s) \<Longrightarrow> sep \<notin> set l"
proof (induction s arbitrary: l)
  case Nil
  then show ?case by simp
next
  case (Cons c cs)
  then show ?case
    by (cases "split_on sep cs") (auto split: if_splits)
qed

lemma split_on_free: "sep \<notin> set x \<Longrightarrow> split_on sep x = [x]"
  by (induction x) auto

lemma split_on_append:
  "sep \<notin> set x \<Longrightarrow> split_on sep (x @ sep # rest) = x # split_on sep rest"
  by (induction x) auto

lemma split_on_join:
  "L \<noteq> [] \<Longrightarrow> (\<forall>l \<in> set L. sep \<notin> set l) \<Longrightarrow> split_on sep (str_join [sep] L) = L"
proof (induction "[sep]" L rule: str_join.induct)
  case 1
  then show ?case by simp
next
  case (2 x)
  then show ?case by (simp add: split_on_free)
next
  case (3 x y ys)
  then show ?case by (simp add: split_on_append)
qed

lemma set_strip: "set (strip s) \<subseteq> set s"
  by (auto simp: strip_def dest!: set_dropWhileD)

lemma strip_ends:
  assumes "strip s \<noteq> []"
  shows "\<not> isspace (hd (strip s)) \<and> \<not> isspace (last (strip s))"
proof -
  define u where "u = dropWhile isspace s"
  define v where "v = dropWhile isspace (rev u)"
  have sv: "strip s = rev v" by (simp add: strip_def u_def v_def)
  with assms have v: "v \<noteq> []" by simp
  then have "rev u \<noteq> []" by (auto simp: v_def)
  then have u: "u \<noteq> []" by simp
  have hv: "\<not> isspace (hd v)" using v unfolding v_def by (rule hd_dropWhile)
  have hu: "\<not> isspace (hd u)" using u unfolding u_def by (rule hd_dropWhile)
  obtain w where w: "rev u = w @ v"
    unfolding v_def by (metis takeWhile_dropWhile_id)
  have "last v = last (rev u)" using v w by simp
  also have "\<dots> = hd u" using u by (simp add: last_rev)
  finally have lv: "last v = hd u" .
  show ?thesis using v hv hu lv by (simp add: sv hd_rev last_rev)
qed

lemma strip_fixed:
  assumes "t \<noteq> []" "\<not> isspace (hd t)" "\<not> isspace (last t)"
  shows "strip t = t"
proof -
  have a: "dropWhile isspace t = t" using assms by (cases t) auto
  have "rev t \<noteq> []" "\<not> isspace (hd (rev t))" using assms by (simp_all add: hd_rev)
  then have b: "dropWhile isspace (rev t) = rev t" by (cases "rev t") auto
  show ?thesis by (simp add: strip_def a b)
qed

lemma strip_Nil: "strip [] = []" by (simp add: strip_def)

lemma strip_strip: "strip (strip s) = strip s"
  using strip_ends [of s] strip_fixed [of "strip s"] strip_Nil by (cases "strip s = []") auto

lemma trimmed_line_props:
  assumes "l \<in> set (trimmed_nonempty_lines s)"
  shows "l \<noteq> []" "strip l = l" "NEWLINE \<notin> set l"
proof -
  from assms obtain x where x: "x \<in> set (split_on NEWLINE s)" "l = strip x" "l \<noteq> []"
    by (auto simp: trimmed_nonempty_lines_def)
  show "l \<noteq> []" by fact
  show "strip l = l" using x by (simp add: strip_strip)
  show "NEWLINE \<notin> set l" using x split_on_no_sep [of x NEWLINE s] set_strip [of x] by auto
qed

lemma split_minify_js:
  "split_on NEWLINE (minify_js s) =
     (if trimmed_nonempty_lines s = [] then [[]] else trimmed_nonempty_lines s)"
proof (cases "trimmed_nonempty_lines s = []")
  case True
  then show ?thesis by (simp add: minify_js_lines)
next
  case False
  then show ?thesis
    using split_on_join [of "trimmed_nonempty_lines s" NEWLINE] trimmed_line_props(3) [of _ s]
    by (simp add: minify_js_lines)
qed

lemma trimmed_minify_js:
  "trimmed_nonempty_lines (minify_js s) = trimmed_nonempty_lines s"
proof -
  have "filter (\<lambda>l. l \<noteq> []) (map strip L) = L"
    if "\<forall>l \<in> set L. l \<noteq> [] \<and> strip l = l" for L
    using that by (induction L) auto
  then have *: "filter (\<lambda>l. l \<noteq> []) (map strip (trimmed_nonempty_lines s)) = trimmed_nonempty_lines s"
    using trimmed_line_props(1,2) [of _ s] by blast
  show ?thesis
  proof (cases "trimmed_nonempty_lines s = []")
    case True
    then show ?thesis
      using split_minify_js [of s] by (simp add: trimmed_nonempty_lines_def [of "minify_js s"] strip_Nil)
  next
    case False
    then show ?thesis
      using split_minify_js [of s] * by (simp add: trimmed_nonempty_lines_def [of "minify_js s"])
  qed
qed

text \<open>
  Claim C4. The lines of the output of the JS normalizer that are not empty after
  trimming are those of the input, as many and in the same order, each the input line
  with the whitespace at its ends removed. The output is these lines joined by single
  newlines; split at its newlines it gives back exactly these lines (one empty line when
  there is none), so no two lines are merged and none is moved.
\<close>

theorem minify_js_lines_preserved:
  "trimmed_nonempty_lines (minify_js s) = trimmed_nonempty_lines s
   \<and> minify_js s = str_join [NEWLINE] (trimmed_nonempty_lines s)
   \<and> split_on NEWLINE (minify_js s) =
       (if trimmed_nonempty_lines s = [] then [[]] else trimmed_nonempty_lines s)"
  by (simp only: trimmed_minify_js split_minify_js minify_js_lines [symmetric] simp_thms)

theorem minify_js_lines_preserved_witness:
  "trimmed_nonempty_lines (str ''  foo();  \<newline>\<newline> bar();'') = [str ''foo();'', str ''bar();'']
   \<and> minify_js (str ''  foo();  \<newline>\<newline> bar();'') = str ''foo();\<newline>bar();''
   \<and> trimmed_nonempty_lines (minify_js (str ''  foo();  \<newline>\<newline> bar();''))
       = [str ''foo();'', str ''bar();'']"
proof -
  let ?s = "str ''  foo();  \<newline>\<newline> bar();''"
  note inst = minify_js_lines_preserved [of ?s]
  have a: "trimmed_nonempty_lines ?s = [str ''foo();'', str ''bar();'']"
    by (simp add: trimmed_nonempty_lines_def str_def strip_def isspace_def)
  from inst have "minify_js ?s = str_join [NEWLINE] (trimmed_nonempty_lines ?s)" by blast
  then have "minify_js ?s = str_join [NEWLINE] [str ''foo();'', str ''bar();'']"
    by (simp only: a)
  then have b: "minify_js ?s = str ''foo();\<newline>bar();''"
    by (simp add: str_def)
  from inst have "trimmed_nonempty_lines (minify_js ?s) = trimmed_nonempty_lines ?s" by blast
  then have c: "trimmed_nonempty_lines (minify_js ?s) = [str ''foo();'', str ''bar();'']"
    by (simp only: a)
  show ?thesis by (rule conjI [OF a conjI [OF b c]])
qed

text \<open>
  Claim C10. The JS normalizer is idempotent: normalizing its own output changes
  nothing.
\<close>

theorem minify_js_idempotent: "minify_js (minify_js s) = minify_js s"
  by (simp add: minify_js_lines [of "minify_js s"] trimmed_minify_js) (simp add: minify_js_lines)

theorem minify_js_idempotent_witness:
  "minify_js (str '' a \<newline> \<newline>b'') = str ''a\<newline>b''
   \<and> minify_js (minify_js (str '' a \<newline> \<newline>b'')) = str ''a\<newline>b''"
proof -
  let ?s = "str '' a \<newline> \<newline>b''"
  have a: "minify_js ?s = str ''a\<newline>b''"
    by (simp add: minify_js_def str_def strip_def isspace_def)
  have "minify_js (minify_js ?s) = minify_js ?s" by (rule minify_js_idempotent)
  then have b: "minify_js (minify_js ?s) = str ''a\<newline>b''"
    by (simp only: a)
  show ?thesis by (rule conjI [OF a b])
qed

section \<open>Properties of the CSS normalizer\<close>

lemma is_special_not_space: "is_special c \<Longrightarrow> \<not> isspace c"
  by (auto simp: is_special_def isspace_def)

lemma isspace_SPACE: "isspace SPACE"
  by (simp add: isspace_def)

lemma filter_not_dropWhile:
  "filter (\<lambda>c. \<not> P c) (dropWhile P xs) = filter (\<lambda>c. \<not> P c) xs"
  by (induction xs) simp_all

lemma nonws_sub_whitespace:
  "filter (\<lambda>c. \<not> isspace c) (sub_whitespace s) = filter (\<lambda>c. \<not> isspace c) s"
  by (induction s rule: sub_whitespace.induct)
     (simp_all add: isspace_SPACE filter_not_dropWhile)

lemma nonws_sub_special:
  "filter (\<lambda>c. \<not> isspace c) (sub_special s) = filter (\<lambda>c. \<not> isspace c) s"
proof (induction s rule: sub_special.induct)
  case 1
  show ?case by simp
next
  case (2 c cs)
  show ?case
  proof (cases "is_special c")
    case True
    with 2 show ?thesis
      by (simp add: is_special_not_space filter_not_dropWhile)
  next
    case nsp: False
    show ?thesis
    proof (cases "isspace c")
      case False
      with nsp 2 show ?thesis by simp
    next
      case ws: True
      show ?thesis
      proof (cases "dropWhile isspace cs")
        case Nil
        with nsp ws 2 show ?thesis by (simp del: dropWhile_eq_Nil_conv)
      next
        case (Cons x r)
        show ?thesis
        proof (cases "is_special x")
          case False
          with nsp ws Cons 2 show ?thesis by simp
        next
          case True
          have "filter (\<lambda>c. \<not> isspace c) cs = filter (\<lambda>c. \<not> isspace c) (x # r)"
            using filter_not_dropWhile [of isspace cs] Cons by simp
          with nsp ws Cons True 2 show ?thesis
            by (simp add: is_special_not_space filter_not_dropWhile)
        qed
      qed
    qed
  qed
qed

lemma nonws_strip:
  "filter (\<lambda>c. \<not> isspace c) (strip s) = filter (\<lambda>c. \<not> isspace c) s"
proof -
  have "filter (\<lambda>c. \<not> isspace c) (strip s)
        = rev (filter (\<lambda>c. \<not> isspace c) (dropWhile isspace (rev (dropWhile isspace s))))"
    by (simp add: strip_def rev_filter)
  also have "\<dots> = rev (filter (\<lambda>c. \<not> isspace c) (rev (dropWhile isspace s)))"
    by (simp only: filter_not_dropWhile)
  also have "\<dots> = filter (\<lambda>c. \<not> isspace c) (dropWhile isspace s)"
    by (simp add: rev_filter)
  finally show ?thesis by (simp add: filter_not_dropWhile)
qed

lemma nonws_spec_drop_adjacent:
  "filter (\<lambda>c. \<not> isspace c) (spec_drop_adjacent prev s) = filter (\<lambda>c. \<not> isspace c) s"
  by (induction s arbitrary: prev) (simp_all add: isspace_SPACE)

lemma nonws_minify_css:
  "filter (\<lambda>c. \<not> isspace c) (minify_css s) = filter (\<lambda>c. \<not> isspace c) (sub_comments s)"
  by (simp add: minify_css_def nonws_strip nonws_sub_special nonws_sub_whitespace)

lemma no_ws_run_Cons:
  "no_ws_run (c # t) \<longleftrightarrow> (t = [] \<or> \<not> (isspace c \<and> isspace (hd t))) \<and> no_ws_run t"
  by (cases t) auto

lemma no_ws_run_appendD2: "no_ws_run (a @ b) \<Longrightarrow> no_ws_run b"
  by (induction a) (simp_all add: no_ws_run_Cons)

lemma no_ws_run_appendD1: "no_ws_run (a @ b) \<Longrightarrow> no_ws_run a"
  by (induction a rule: no_ws_run.induct) (simp_all add: no_ws_run_Cons)

lemma no_ws_run_dropWhile: "no_ws_run s \<Longrightarrow> no_ws_run (dropWhile P s)"
  using no_ws_run_appendD2 [of "takeWhile P s" "dropWhile P s"] by simp

lemma strip_sublist: "\<exists>a b. s = a @ strip s @ b"
proof -
  define u where "u = dropWhile isspace s"
  have s: "s = takeWhile isspace s @ u" by (simp add: u_def)
  have "rev (takeWhile isspace (rev u) @ dropWhile isspace (rev u)) = rev (rev u)"
    by (simp only: takeWhile_dropWhile_id)
  then have "rev (dropWhile isspace (rev u)) @ rev (takeWhile isspace (rev u)) = u"
    by (simp only: rev_append rev_rev_ident)
  then have u: "u = strip s @ rev (takeWhile isspace (rev u))"
    by (simp only: strip_def u_def)
  from s u have "s = takeWhile isspace s @ strip s @ rev (takeWhile isspace (rev u))" by simp
  then show ?thesis by blast
qed

lemma no_ws_run_strip: "no_ws_run s \<Longrightarrow> no_ws_run (strip s)"
proof -
  assume a: "no_ws_run s"
  obtain x y where "s = x @ strip s @ y" using strip_sublist by blast
  with a have "no_ws_run (x @ strip s @ y)" by simp
  then show ?thesis using no_ws_run_appendD1 no_ws_run_appendD2 by blast
qed

lemma hd_sub_whitespace:
  "t = [] \<or> \<not> isspace (hd t) \<Longrightarrow>
   sub_whitespace t = [] \<or> \<not> isspace (hd (sub_whitespace t))"
  by (cases t) auto

lemma no_ws_run_sub_whitespace: "no_ws_run (sub_whitespace s)"
proof (induction s rule: sub_whitespace.induct)
  case 1
  show ?case by simp
next
  case (2 c cs)
  show ?case
  proof (cases "isspace c")
    case True
    define t where "t = dropWhile isspace cs"
    have "t = [] \<or> \<not> isspace (hd t)"
      unfolding t_def using hd_dropWhile [of isspace cs] by blast
    then have "sub_whitespace t = [] \<or> \<not> isspace (hd (sub_whitespace t))"
      by (rule hd_sub_whitespace)
    with True 2 show ?thesis by (simp add: no_ws_run_Cons t_def)
  next
    case False
    with 2 show ?thesis by (simp add: no_ws_run_Cons)
  qed
qed

lemma hd_sub_special:
  "t = [] \<or> \<not> isspace (hd t) \<Longrightarrow>
   sub_special t = [] \<or> \<not> isspace (hd (sub_special t))"
  by (cases t) (auto simp: is_special_not_space)

lemma no_ws_run_sub_special: "no_ws_run s \<Longrightarrow> no_ws_run (sub_special s)"
proof (induction s rule: sub_special.induct)
  case 1
  show ?case by simp
next
  case (2 c cs)
  from "2.prems" have cs: "no_ws_run cs" by (simp add: no_ws_run_Cons)
  then have dcs: "no_ws_run (dropWhile isspace cs)" by (rule no_ws_run_dropWhile)
  show ?case
  proof (cases "is_special c")
    case True
    with 2 dcs show ?thesis by (simp add: no_ws_run_Cons is_special_not_space)
  next
    case nsp: False
    have keep: "no_ws_run (c # sub_special cs)" if ih: "no_ws_run (sub_special cs)"
    proof (cases "isspace c")
      case False
      with ih show ?thesis by (simp add: no_ws_run_Cons)
    next
      case True
      with "2.prems" have "cs = [] \<or> \<not> isspace (hd cs)" by (simp add: no_ws_run_Cons)
      then have "sub_special cs = [] \<or> \<not> isspace (hd (sub_special cs))"
        by (rule hd_sub_special)
      with ih show ?thesis by (auto simp add: no_ws_run_Cons)
    qed
    show ?thesis
    proof (cases "isspace c")
      case False
      with nsp 2 cs keep show ?thesis by simp
    next
      case ws: True
      show ?thesis
      proof (cases "dropWhile isspace cs")
        case Nil
        with nsp ws 2 cs keep show ?thesis by (simp del: dropWhile_eq_Nil_conv)
      next
        case (Cons x r)
        show ?thesis
        proof (cases "is_special x")
          case False
          with nsp ws Cons 2 cs keep show ?thesis by simp
        next
          case True
          from dcs Cons have "no_ws_run r" by (simp add: no_ws_run_Cons)
          then have "no_ws_run (dropWhile isspace r)" by (rule no_ws_run_dropWhile)
          with nsp ws Cons True 2 show ?thesis
            by (simp add: no_ws_run_Cons is_special_not_space)
        qed
      qed
    qed
  qed
qed

lemma no_ws_run_minify_css: "no_ws_run (minify_css s)"
  by (simp add: minify_css_def no_ws_run_strip no_ws_run_sub_special no_ws_run_sub_whitespace)

text \<open>
  Comment spans and the later steps. Whether a text holds a comment span depends only on
  its slashes and stars and on which of them are neighbours; the whitespace steps remove
  or replace whitespace only, and a special character never is a slash or a star. So the
  output of the normalizer holds a comment span exactly when the comment-stripped text
  does.
\<close>

lemma starts_simps [simp]: "starts k [] = False" "starts k (x # xs) = (x = k)"
  by (simp_all add: starts_def)

lemma prefix_two: "prefix [a, b] (c # cs) \<longleftrightarrow> c = a \<and> starts b cs"
  by (cases cs) auto

lemma has_close_Nil [simp]: "has_close [] = False"
  by (simp add: has_close_def)

lemma has_close_Cons:
  "has_close (c # cs) \<longleftrightarrow> (c = STAR \<and> starts SLASH cs) \<or> has_close cs"
  by (auto simp: has_close_def prefix_two simp del: Cons_prefix_Cons)

lemma has_comment_Cons:
  "has_comment (c # cs) \<longleftrightarrow> (c = SLASH \<and> starts STAR cs \<and> has_close (tl cs)) \<or> has_comment cs"
  by (cases cs) (auto simp: has_close_def)

declare find_close.simps(2) [simp del] has_comment.simps(2) [simp del]

lemma not_space_SLASH: "\<not> isspace SLASH" "\<not> isspace STAR" "\<not> is_special SLASH" "\<not> is_special STAR"
  by (simp_all add: isspace_def is_special_def)

lemma has_close_dropWhile: "has_close (dropWhile isspace u) = has_close u"
  by (induction u) (auto simp: has_close_Cons not_space_SLASH)

lemma has_comment_dropWhile: "has_comment (dropWhile isspace u) = has_comment u"
  by (induction u) (auto simp: has_comment_Cons not_space_SLASH)

lemma starts_append_ws:
  "\<forall>x \<in> set w. isspace x \<Longrightarrow> \<not> isspace k \<Longrightarrow> starts k (a @ w) = starts k a"
  by (cases a; cases w) auto

lemma has_close_append_ws: "\<forall>x \<in> set w. isspace x \<Longrightarrow> has_close (a @ w) = has_close a"
proof (induction a)
  case Nil
  then show ?case by (induction w) (auto simp: has_close_Cons not_space_SLASH)
next
  case (Cons c a)
  then show ?case by (simp add: has_close_Cons starts_append_ws not_space_SLASH)
qed

lemma has_comment_append_ws: "\<forall>x \<in> set w. isspace x \<Longrightarrow> has_comment (a @ w) = has_comment a"
proof (induction a)
  case Nil
  then show ?case by (induction w) (auto simp: has_comment_Cons not_space_SLASH)
next
  case (Cons c a)
  have "has_close (tl (a @ w)) = has_close (tl a)" if "starts STAR a"
    using that Cons.prems by (cases a) (simp_all add: has_close_append_ws)
  with Cons show ?case
    by (auto simp add: has_comment_Cons starts_append_ws not_space_SLASH)
qed

lemma strip_decomposition:
  "\<exists>w. dropWhile isspace s = strip s @ w \<and> (\<forall>x \<in> set w. isspace x)"
proof -
  define u where "u = dropWhile isspace s"
  have "rev (takeWhile isspace (rev u) @ dropWhile isspace (rev u)) = rev (rev u)"
    by (simp only: takeWhile_dropWhile_id)
  then have "rev (dropWhile isspace (rev u)) @ rev (takeWhile isspace (rev u)) = u"
    by (simp only: rev_append rev_rev_ident)
  then have "u = strip s @ rev (takeWhile isspace (rev u))"
    by (simp only: strip_def u_def)
  moreover have "\<forall>x \<in> set (rev (takeWhile isspace (rev u))). isspace x"
    by (auto dest: set_takeWhileD)
  ultimately show ?thesis unfolding u_def by blast
qed

lemma has_comment_strip: "has_comment (strip s) = has_comment s"
proof -
  obtain w where w: "dropWhile isspace s = strip s @ w" "\<forall>x \<in> set w. isspace x"
    using strip_decomposition by blast
  have "has_comment s = has_comment (dropWhile isspace s)" by (simp add: has_comment_dropWhile)
  also have "\<dots> = has_comment (strip s)" using w by (simp add: has_comment_append_ws)
  finally show ?thesis by simp
qed

lemma starts_sub_whitespace: "\<not> isspace k \<Longrightarrow> starts k (sub_whitespace u) = starts k u"
  by (cases u) (auto simp: isspace_SPACE)

lemma has_close_sub_whitespace: "has_close (sub_whitespace u) = has_close u"
proof (induction u rule: sub_whitespace.induct)
  case 1
  show ?case by simp
next
  case (2 c cs)
  show ?case
  proof (cases "isspace c")
    case True
    with 2 have "has_close (sub_whitespace (c # cs)) = has_close (dropWhile isspace cs)"
      by (simp add: has_close_Cons)
    also have "\<dots> = has_close (c # cs)"
      using True by (auto simp: has_close_dropWhile has_close_Cons not_space_SLASH)
    finally show ?thesis .
  next
    case False
    with 2 show ?thesis
      by (simp add: has_close_Cons starts_sub_whitespace not_space_SLASH)
  qed
qed

lemma tl_sub_whitespace: "starts STAR cs \<Longrightarrow> tl (sub_whitespace cs) = sub_whitespace (tl cs)"
  by (cases cs) (auto simp: not_space_SLASH)

lemma has_comment_sub_whitespace: "has_comment (sub_whitespace u) = has_comment u"
proof (induction u rule: sub_whitespace.induct)
  case 1
  show ?case by simp
next
  case (2 c cs)
  show ?case
  proof (cases "isspace c")
    case True
    with 2 have "has_comment (sub_whitespace (c # cs)) = has_comment (dropWhile isspace cs)"
      by (simp add: has_comment_Cons)
    also have "\<dots> = has_comment (c # cs)"
      using True by (auto simp: has_comment_dropWhile has_comment_Cons not_space_SLASH)
    finally show ?thesis .
  next
    case False
    have "has_close (tl (sub_whitespace cs)) = has_close (tl cs)" if "starts STAR cs"
      using that by (simp add: tl_sub_whitespace has_close_sub_whitespace)
    with False 2 show ?thesis
      by (auto simp add: has_comment_Cons starts_sub_whitespace not_space_SLASH)
  qed
qed

lemma starts_sub_special:
  "\<not> isspace k \<Longrightarrow> \<not> is_special k \<Longrightarrow> starts k (sub_special u) = starts k u"
proof (cases u)
  case Nil
  then show ?thesis by simp
next
  case (Cons c cs)
  assume k: "\<not> isspace k" "\<not> is_special k"
  show ?thesis
  proof (cases "dropWhile isspace cs")
    case Nil
    with Cons k show ?thesis by (auto simp del: dropWhile_eq_Nil_conv)
  next
    case (Cons x r)
    with \<open>u = c # cs\<close> k show ?thesis by auto
  qed
qed


lemma has_close_sub_special: "has_close (sub_special u) = has_close u"
proof (induction u rule: sub_special.induct)
  case 1
  show ?case by simp
next
  case (2 c cs)
  have lead: "has_close cs = has_close (dropWhile isspace cs)"
    by (simp add: has_close_dropWhile)
  show ?case
  proof (cases "is_special c")
    case True
    then have "c \<noteq> STAR" using not_space_SLASH by auto
    with True 2 show ?thesis by (simp add: has_close_Cons has_close_dropWhile)
  next
    case nsp: False
    show ?thesis
    proof (cases "isspace c")
      case False
      with nsp 2 show ?thesis
        by (simp add: has_close_Cons starts_sub_special not_space_SLASH)
    next
      case ws: True
      then have c: "c \<noteq> STAR" using not_space_SLASH by auto
      show ?thesis
      proof (cases "dropWhile isspace cs")
        case Nil
        with nsp ws c 2 show ?thesis
          by (simp add: has_close_Cons del: dropWhile_eq_Nil_conv)
      next
        case (Cons x r)
        show ?thesis
        proof (cases "is_special x")
          case False
          with nsp ws c Cons 2 show ?thesis by (simp add: has_close_Cons)
        next
          case True
          then have x: "x \<noteq> STAR" using not_space_SLASH by auto
          have "has_close cs = has_close r"
            using lead Cons x by (simp add: has_close_Cons)
          with nsp ws c x Cons True 2 show ?thesis
            by (simp add: has_close_Cons has_close_dropWhile)
        qed
      qed
    qed
  qed
qed

lemma tl_sub_special: "starts STAR cs \<Longrightarrow> tl (sub_special cs) = sub_special (tl cs)"
  by (cases cs) (auto simp: not_space_SLASH)

lemma has_comment_sub_special: "has_comment (sub_special u) = has_comment u"
proof (induction u rule: sub_special.induct)
  case 1
  show ?case by simp
next
  case (2 c cs)
  have lead: "has_comment cs = has_comment (dropWhile isspace cs)"
    by (simp add: has_comment_dropWhile)
  show ?case
  proof (cases "is_special c")
    case True
    then have "c \<noteq> SLASH" using not_space_SLASH by auto
    with True 2 show ?thesis by (simp add: has_comment_Cons has_comment_dropWhile)
  next
    case nsp: False
    show ?thesis
    proof (cases "isspace c")
      case False
      have "has_close (tl (sub_special cs)) = has_close (tl cs)" if "starts STAR cs"
        using that by (simp add: tl_sub_special has_close_sub_special)
      with False nsp 2 show ?thesis
        by (auto simp add: has_comment_Cons starts_sub_special not_space_SLASH)
    next
      case ws: True
      then have c: "c \<noteq> SLASH" using not_space_SLASH by auto
      show ?thesis
      proof (cases "dropWhile isspace cs")
        case Nil
        with nsp ws c 2 show ?thesis
          by (simp add: has_comment_Cons del: dropWhile_eq_Nil_conv)
      next
        case (Cons x r)
        show ?thesis
        proof (cases "is_special x")
          case False
          with nsp ws c Cons 2 show ?thesis by (simp add: has_comment_Cons)
        next
          case True
          then have x: "x \<noteq> SLASH" using not_space_SLASH by auto
          have "has_comment cs = has_comment r"
            using lead Cons x by (simp add: has_comment_Cons)
          with nsp ws c x Cons True 2 show ?thesis
            by (simp add: has_comment_Cons has_comment_dropWhile)
        qed
      qed
    qed
  qed
qed

lemma has_comment_minify_css: "has_comment (minify_css s) = has_comment (sub_comments s)"
  by (simp add: minify_css_def has_comment_strip has_comment_sub_special
        has_comment_sub_whitespace)

lemma contains_two:
  "contains (c # cs) [a, b] \<longleftrightarrow> (c = a \<and> starts b cs) \<or> contains cs [a, b]"
  by (simp add: prefix_two del: Cons_prefix_Cons)

lemma find_close_found:
  "\<not> contains b [STAR, SLASH] \<Longrightarrow> find_close (b @ [STAR, SLASH] @ rest) = Some rest"
proof (induction b)
  case Nil
  show ?case by (simp add: find_close.simps)
next
  case (Cons c b)
  from Cons.prems [unfolded contains_two]
  have np: "\<not> (c = STAR \<and> starts SLASH b)" and nc: "\<not> contains b [STAR, SLASH]"
    by blast+
  have "\<not> prefix [STAR, SLASH] (c # (b @ [STAR, SLASH] @ rest))"
    unfolding prefix_two using np by (cases b) auto
  then have "find_close ((c # b) @ [STAR, SLASH] @ rest) = find_close (b @ [STAR, SLASH] @ rest)"
    by (simp add: find_close.simps del: Cons_prefix_Cons)
  with Cons.IH [OF nc] show ?case by simp
qed

lemma sub_comments_skip:
  "\<not> contains a [SLASH, STAR] \<Longrightarrow>
   sub_comments (a @ SLASH # STAR # t) = a @ sub_comments (SLASH # STAR # t)"
proof (induction a)
  case Nil
  show ?case by simp
next
  case (Cons c a)
  from Cons.prems [unfolded contains_two]
  have np: "\<not> (c = SLASH \<and> starts STAR a)" and nc: "\<not> contains a [SLASH, STAR]"
    by blast+
  have "\<not> prefix [SLASH, STAR] (c # (a @ SLASH # STAR # t))"
    unfolding prefix_two using np by (cases a) auto
  then have "sub_comments ((c # a) @ SLASH # STAR # t) = c # sub_comments (a @ SLASH # STAR # t)"
    by (simp del: Cons_prefix_Cons)
  with Cons.IH [OF nc] show ?case by simp
qed

lemma sub_comments_removes:
  assumes "\<not> contains a [SLASH, STAR]" and "\<not> contains b [STAR, SLASH]"
  shows "sub_comments (a @ [SLASH, STAR] @ b @ [STAR, SLASH] @ rest) = a @ sub_comments rest"
proof -
  have "sub_comments (SLASH # STAR # (b @ [STAR, SLASH] @ rest)) = sub_comments rest"
    using find_close_found [OF assms(2), of rest] by simp
  with sub_comments_skip [OF assms(1), of "b @ [STAR, SLASH] @ rest"] show ?thesis by simp
qed

lemma sub_comments_clean: "\<not> has_comment t \<Longrightarrow> sub_comments t = t"
proof (induction t)
  case Nil
  show ?case by simp
next
  case (Cons c cs)
  from Cons.prems have a: "\<not> (c = SLASH \<and> starts STAR cs \<and> has_close (tl cs))"
    and b: "\<not> has_comment cs"
    by (simp_all add: has_comment_Cons)
  have "sub_comments (c # cs) = c # sub_comments cs"
  proof (cases "prefix [SLASH, STAR] (c # cs)")
    case False
    then show ?thesis by (simp del: Cons_prefix_Cons)
  next
    case True
    with a have "find_close (drop 2 (c # cs)) = None"
      by (cases cs) (auto simp add: prefix_two has_close_def simp del: Cons_prefix_Cons)
    with True show ?thesis by (simp del: Cons_prefix_Cons)
  qed
  with Cons.IH [OF b] show ?case by simp
qed

lemma sub_comments_with_comments:
  "(\<forall>(a, b) \<in> set parts. \<not> contains a [SLASH, STAR] \<and> \<not> contains b [STAR, SLASH]) \<Longrightarrow>
   \<not> has_comment t \<Longrightarrow>
   sub_comments (with_comments parts t) = concat (map fst parts) @ t"
proof (induction parts)
  case Nil
  then show ?case by (simp add: sub_comments_clean)
next
  case (Cons p parts)
  obtain a b where p: "p = (a, b)" by (cases p)
  from Cons.prems p have ab: "\<not> contains a [SLASH, STAR]" "\<not> contains b [STAR, SLASH]"
    and rest: "\<forall>(a, b) \<in> set parts. \<not> contains a [SLASH, STAR] \<and> \<not> contains b [STAR, SLASH]"
    by simp_all
  have "sub_comments (with_comments (p # parts) t) = a @ sub_comments (with_comments parts t)"
    using sub_comments_removes [OF ab, of "with_comments parts t"] by (simp add: p)
  with Cons.IH [OF rest Cons.prems(2)] show ?case by (simp add: p)
qed

text \<open>
  Every stylesheet is of the form \<open>with_comments parts t\<close> with pieces free of \<^verbatim>\<open>/*\<close>,
  comment bodies free of \<^verbatim>\<open>*/\<close> and no comment span in \<open>t\<close>: cut it at the first comment
  span, then cut what follows in the same way.
\<close>

lemma find_close_decomposition:
  "find_close t = Some rest \<Longrightarrow> \<exists>b. t = b @ [STAR, SLASH] @ rest \<and> \<not> contains b [STAR, SLASH]"
proof (induction t)
  case Nil
  then show ?case by simp
next
  case (Cons c cs)
  show ?case
  proof (cases "prefix [STAR, SLASH] (c # cs)")
    case True
    then obtain r where r: "c # cs = [STAR, SLASH] @ r" by (auto simp: prefix_def)
    with Cons.prems True have "rest = r" by (simp add: find_close.simps)
    with r have "c # cs = [] @ [STAR, SLASH] @ rest \<and> \<not> contains [] [STAR, SLASH]" by simp
    then show ?thesis by blast
  next
    case False
    with Cons.prems have "find_close cs = Some rest"
      by (simp add: find_close.simps del: Cons_prefix_Cons)
    with Cons.IH obtain b where b: "cs = b @ [STAR, SLASH] @ rest" "\<not> contains b [STAR, SLASH]"
      by blast
    have "\<not> (c = STAR \<and> starts SLASH b)"
    proof
      assume "c = STAR \<and> starts SLASH b"
      then have "c = STAR \<and> starts SLASH cs" using b(1) by (cases b) auto
      with False show False unfolding prefix_two by blast
    qed
    with b(2) have "\<not> contains (c # b) [STAR, SLASH]" by (simp only: contains_two) blast
    moreover have "c # cs = (c # b) @ [STAR, SLASH] @ rest" using b(1) by simp
    ultimately show ?thesis by blast
  qed
qed

lemma has_close_tl: "has_close (tl u) \<Longrightarrow> has_close u"
  by (cases u) (simp_all add: has_close_Cons)

lemma has_comment_has_close: "has_comment u \<Longrightarrow> has_close (tl u)"
proof (induction u)
  case Nil
  then show ?case by simp
next
  case (Cons c cs)
  then show ?case by (auto simp: has_comment_Cons intro: has_close_tl)
qed

lemma first_comment:
  "has_comment s \<Longrightarrow>
   \<exists>a b rest. s = a @ [SLASH, STAR] @ b @ [STAR, SLASH] @ rest
     \<and> \<not> contains a [SLASH, STAR] \<and> \<not> contains b [STAR, SLASH]"
proof (induction s)
  case Nil
  then show ?case by simp
next
  case (Cons c cs)
  show ?case
  proof (cases "c = SLASH \<and> starts STAR cs")
    case True
    then obtain r where r: "cs = STAR # r" by (cases cs) auto
    from Cons.prems True have "has_close (tl cs)"
      by (auto simp: has_comment_Cons dest: has_comment_has_close)
    then obtain rest where "find_close r = Some rest" by (auto simp: has_close_def r)
    then obtain b where b: "r = b @ [STAR, SLASH] @ rest" "\<not> contains b [STAR, SLASH]"
      using find_close_decomposition by blast
    have "c # cs = [] @ [SLASH, STAR] @ b @ [STAR, SLASH] @ rest" using True r b(1) by simp
    moreover have "\<not> contains [] [SLASH, STAR]" by simp
    ultimately show ?thesis using b(2) by blast
  next
    case False
    with Cons.prems have "has_comment cs" by (auto simp: has_comment_Cons)
    with Cons.IH obtain a b rest where
      ab: "cs = a @ [SLASH, STAR] @ b @ [STAR, SLASH] @ rest"
        "\<not> contains a [SLASH, STAR]" "\<not> contains b [STAR, SLASH]"
      by blast
    have "\<not> (c = SLASH \<and> starts STAR a)"
    proof
      assume "c = SLASH \<and> starts STAR a"
      then have "c = SLASH \<and> starts STAR cs" using ab(1) by (cases a) auto
      with False show False by simp
    qed
    with ab(2) have "\<not> contains (c # a) [SLASH, STAR]" by (simp only: contains_two) blast
    moreover have "c # cs = (c # a) @ [SLASH, STAR] @ b @ [STAR, SLASH] @ rest"
      using ab(1) by simp
    ultimately show ?thesis using ab(3) by blast
  qed
qed

lemma comment_decomposition:
  "\<exists>parts t. s = with_comments parts t
     \<and> (\<forall>(a, b) \<in> set parts. \<not> contains a [SLASH, STAR] \<and> \<not> contains b [STAR, SLASH])
     \<and> \<not> has_comment t"
proof (induction s rule: length_induct)
  case (1 s)
  show ?case
  proof (cases "has_comment s")
    case False
    then have "s = with_comments [] s
        \<and> (\<forall>(a, b) \<in> set []. \<not> contains a [SLASH, STAR] \<and> \<not> contains b [STAR, SLASH])
        \<and> \<not> has_comment s"
      by simp
    then show ?thesis by blast
  next
    case True
    then obtain a b rest where
      ab: "s = a @ [SLASH, STAR] @ b @ [STAR, SLASH] @ rest"
        "\<not> contains a [SLASH, STAR]" "\<not> contains b [STAR, SLASH]"
      using first_comment by blast
    then have "length rest < length s" by simp
    with 1 obtain parts t where
      pt: "rest = with_comments parts t"
        "\<forall>(a, b) \<in> set parts. \<not> contains a [SLASH, STAR] \<and> \<not> contains b [STAR, SLASH]"
        "\<not> has_comment t"
      by blast
    have "s = with_comments ((a, b) # parts) t" using ab(1) pt(1) by simp
    moreover have "\<forall>(a, b) \<in> set ((a, b) # parts).
        \<not> contains a [SLASH, STAR] \<and> \<not> contains b [STAR, SLASH]"
      using ab(2,3) pt(2) by simp
    ultimately show ?thesis using pt(3) by blast
  qed
qed

declare find_close.simps(2) [simp] has_comment.simps(2) [simp]

text \<open>
  Claim C2, as the code has it. For every stylesheet (those of three characters or more
  among them):
  \<^item> the output of the CSS normalizer has no two whitespace characters next to each
    other;
  \<^item> deleting the spaces next to \<^verbatim>\<open>{ } : ; ,\<close> from the comment-stripped input and from
    the output leaves the same sequence of non-whitespace characters;
  \<^item> the comment pass removes every comment span its scan meets: a stylesheet made of
    pieces free of \<^verbatim>\<open>/*\<close>, each followed by a comment whose body is free of \<^verbatim>\<open>*/\<close>, and of
    a last piece with no comment span, is reduced to its pieces joined (by
    \<open>comment_decomposition\<close> every stylesheet is made so);
  \<^item> the output holds a comment span only when the joined pieces hold one, that is,
    only a span that comes together from the text around a removed comment.
\<close>

theorem minify_css_normalized:
  "no_ws_run (minify_css s)
   \<and> filter (\<lambda>c. \<not> isspace c) (spec_drop_adjacent None (minify_css s))
     = filter (\<lambda>c. \<not> isspace c) (spec_drop_adjacent None (sub_comments s))
   \<and> (has_comment (minify_css s) \<longleftrightarrow> has_comment (sub_comments s))
   \<and> ((\<forall>(a, b) \<in> set parts. \<not> contains a [SLASH, STAR] \<and> \<not> contains b [STAR, SLASH])
        \<and> \<not> has_comment t \<and> s = with_comments parts t \<longrightarrow>
      sub_comments s = concat (map fst parts) @ t
      \<and> (has_comment (minify_css s) \<longleftrightarrow> has_comment (concat (map fst parts) @ t)))"
proof -
  have a: "no_ws_run (minify_css s)" by (rule no_ws_run_minify_css)
  have b: "filter (\<lambda>c. \<not> isspace c) (spec_drop_adjacent None (minify_css s))
     = filter (\<lambda>c. \<not> isspace c) (spec_drop_adjacent None (sub_comments s))"
    by (simp add: nonws_spec_drop_adjacent nonws_minify_css)
  have c: "has_comment (minify_css s) \<longleftrightarrow> has_comment (sub_comments s)"
    by (rule has_comment_minify_css)
  have d: "sub_comments s = concat (map fst parts) @ t"
    if "\<forall>(a, b) \<in> set parts. \<not> contains a [SLASH, STAR] \<and> \<not> contains b [STAR, SLASH]"
      and "\<not> has_comment t" and "s = with_comments parts t"
    using that sub_comments_with_comments [of parts t] by simp
  from a b c d show ?thesis by auto
qed

theorem minify_css_normalized_witness:
  "\<not> contains [] [SLASH, STAR] \<and> \<not> contains (str '' x '') [STAR, SLASH]
   \<and> \<not> has_comment (str '' a { b : c }'')
   \<and> sub_comments (str ''/* x */ a { b : c }'') = str '' a { b : c }''
   \<and> minify_css (str ''/* x */ a { b : c }'') = str ''a{b:c}''
   \<and> no_ws_run (minify_css (str ''/* x */ a { b : c }''))
   \<and> \<not> has_comment (minify_css (str ''/* x */ a { b : c }''))"
proof -
  let ?s = "str ''/* x */ a { b : c }''"
  let ?parts = "[([], str '' x '')]"
  let ?t = "str '' a { b : c }''"
  note inst = minify_css_normalized [of ?s ?parts ?t]
  have h1: "\<not> contains [] [SLASH, STAR]" by simp
  have h2: "\<not> contains (str '' x '') [STAR, SLASH]" by (simp add: str_def)
  have h3: "\<not> has_comment ?t" by (simp add: str_def)
  have h4: "?s = with_comments ?parts ?t" by (simp add: str_def)
  have hyp: "\<forall>(a, b) \<in> set ?parts. \<not> contains a [SLASH, STAR] \<and> \<not> contains b [STAR, SLASH]"
    using h1 h2 by simp
  from inst hyp h3 h4 have r: "sub_comments ?s = concat (map fst ?parts) @ ?t"
      "has_comment (minify_css ?s) \<longleftrightarrow> has_comment (concat (map fst ?parts) @ ?t)"
    by blast+
  from r(1) have c1: "sub_comments ?s = ?t" by simp
  from r(2) h3 have c2: "\<not> has_comment (minify_css ?s)" by simp
  have c3: "minify_css ?s = str ''a{b:c}''"
    by (simp add: minify_css_def str_def strip_def isspace_def is_special_def)
  from inst have c4: "no_ws_run (minify_css ?s)" by blast
  show ?thesis
    by (rule conjI [OF h1 conjI [OF h2 conjI [OF h3 conjI [OF c1 conjI [OF c3 conjI [OF c4 c2]]]]]])
qed

text \<open>
  Claim C2, as stated, fails. The stylesheet \<^verbatim>\<open>//**/**/\<close> has eight characters. The
  comment pattern does not match at the first slash and matches \<^verbatim>\<open>/**/\<close> at the
  second; after that match only \<^verbatim>\<open>**/\<close> is left, where it matches nowhere. What remains
  is the first slash followed by \<^verbatim>\<open>**/\<close>: the output is \<^verbatim>\<open>/**/\<close>, a comment span.
\<close>

theorem minify_css_comment_counterexample:
  "3 \<le> length [SLASH, SLASH, STAR, STAR, SLASH, STAR, STAR, SLASH]
   \<and> minify_css [SLASH, SLASH, STAR, STAR, SLASH, STAR, STAR, SLASH] = [SLASH, STAR, STAR, SLASH]
   \<and> has_comment (minify_css [SLASH, SLASH, STAR, STAR, SLASH, STAR, STAR, SLASH])"
  by (simp add: minify_css_def strip_def isspace_def is_special_def)

section \<open>Properties of the HTML assembler\<close>

lemma contains_iff: "contains s old \<longleftrightarrow> (\<exists>a b. s = a @ old @ b)"
proof (induction s)
  case Nil
  show ?case by auto
next
  case (Cons c cs)
  show ?case
  proof
    assume "contains (c # cs) old"
    then consider "prefix old (c # cs)" | "contains cs old" by auto
    then show "\<exists>a b. c # cs = a @ old @ b"
    proof cases
      case 1
      then obtain b where "c # cs = old @ b" by (auto simp: prefix_def)
      then have "c # cs = [] @ old @ b" by simp
      then show ?thesis by blast
    next
      case 2
      with Cons obtain a b where "cs = a @ old @ b" by blast
      then have "c # cs = (c # a) @ old @ b" by simp
      then show ?thesis by blast
    qed
  next
    assume "\<exists>a b. c # cs = a @ old @ b"
    then obtain a b where ab: "c # cs = a @ old @ b" by blast
    show "contains (c # cs) old"
    proof (cases a)
      case Nil
      with ab have "prefix old (c # cs)" by (simp add: prefix_def)
      then show ?thesis by simp
    next
      case (Cons x a')
      with ab have "cs = a' @ old @ b" by simp
      with Cons.IH have "contains cs old" by blast
      then show ?thesis by simp
    qed
  qed
qed

lemma contains_Nil_old: "contains s []"
  by (induction s) simp_all

lemma str_replace_absent: "\<not> contains s old \<Longrightarrow> str_replace s old new = s"
proof (induction s)
  case Nil
  then show ?case by simp
next
  case (Cons c cs)
  from Cons.prems have "old \<noteq> []" using contains_Nil_old by blast
  with Cons show ?case by simp
qed

lemma str_replace_at_head:
  assumes "old \<noteq> []"
  shows "str_replace (old @ b) old new = new @ str_replace b old new"
proof -
  from assms obtain c cs where old: "old = c # cs" by (cases old) auto
  have "str_replace (c # (cs @ b)) old new
        = new @ str_replace (drop (length old) (c # (cs @ b))) old new"
    using assms by (simp add: old)
  then show ?thesis by (simp add: old)
qed

lemma no_border_suffix: "no_border old (x @ us) \<Longrightarrow> us \<noteq> [] \<Longrightarrow> \<not> prefix us old"
proof (induction x)
  case Nil
  then show ?case by (cases us) simp_all
next
  case (Cons c x)
  then show ?case by simp
qed

lemma str_replace_occurrence:
  assumes ne: "old \<noteq> []" and nb: "no_border old (tl old)"
  shows "\<not> contains a old \<Longrightarrow> str_replace (a @ old @ b) old new = a @ new @ str_replace b old new"
proof (induction a)
  case Nil
  show ?case using ne by (simp add: str_replace_at_head)
next
  case (Cons c a)
  from Cons.prems have np: "\<not> prefix old (c # a)" and nc: "\<not> contains a old" by simp_all
  have "\<not> prefix old ((c # a) @ old @ b)"
  proof
    assume "prefix old ((c # a) @ old @ b)"
    then consider "prefix old (c # a)" | us where "old = (c # a) @ us" "prefix us (old @ b)"
      unfolding prefix_append by blast
    then show False
    proof cases
      case 1
      with np show False by simp
    next
      case 2
      have us: "us \<noteq> []" using 2(1) np by auto
      have "length us \<le> length old" using 2(1) by simp
      with 2(2) have pu: "prefix us old"
        by (metis prefix_append prefix_length_prefix prefix_order.order_refl prefix_prefix)
      have "tl old = a @ us" using 2(1) by simp
      with nb us have "\<not> prefix us old" using no_border_suffix by metis
      with pu show False by simp
    qed
  qed
  then show ?case using ne Cons.IH [OF nc] by simp
qed

lemma str_replace_join:
  assumes ne: "old \<noteq> []" and nb: "no_border old (tl old)"
  shows "(\<forall>seg \<in> set segs. \<not> contains seg old) \<Longrightarrow>
         str_replace (str_join old segs) old new = str_join new segs"
proof (induction segs rule: induct_list012)
  case 1
  then show ?case using ne by simp
next
  case (2 x)
  then show ?case by (simp add: str_replace_absent)
next
  case (3 x y ys)
  then show ?case using str_replace_occurrence [OF ne nb, of x] by simp
qed

lemma LINK_TAG_shape: "LINK_TAG \<noteq> [] \<and> no_border LINK_TAG (tl LINK_TAG)"
  by (simp add: LINK_TAG_def str_def)

lemma SCRIPT_TAG_shape: "SCRIPT_TAG \<noteq> [] \<and> no_border SCRIPT_TAG (tl SCRIPT_TAG)"
  by (simp add: SCRIPT_TAG_def str_def)

text \<open>
  Every text is made of segments free of \<open>old\<close> with \<open>old\<close> between each two
  neighbours: cut it at the first occurrence, then cut what follows in the same way.
\<close>

lemma first_occurrence:
  "old \<noteq> [] \<Longrightarrow> contains s old \<Longrightarrow> \<exists>a b. s = a @ old @ b \<and> \<not> contains a old"
proof (induction s)
  case Nil
  then show ?case by simp
next
  case (Cons c cs)
  show ?case
  proof (cases "prefix old (c # cs)")
    case True
    then obtain b where "c # cs = [] @ old @ b" by (auto simp: prefix_def)
    moreover have "\<not> contains [] old" using Cons.prems(1) by simp
    ultimately show ?thesis by blast
  next
    case False
    with Cons.prems have "contains cs old" by simp
    with Cons obtain a b where ab: "cs = a @ old @ b" "\<not> contains a old" by blast
    have "\<not> prefix old (c # a)"
    proof
      assume "prefix old (c # a)"
      then have "prefix old ((c # a) @ old @ b)" by (rule prefix_prefix)
      with ab(1) False show False by simp
    qed
    with ab(2) have "\<not> contains (c # a) old" by simp
    moreover have "c # cs = (c # a) @ old @ b" using ab(1) by simp
    ultimately show ?thesis by blast
  qed
qed

lemma str_join_decomposition:
  assumes "old \<noteq> []"
  shows "\<exists>segs. segs \<noteq> [] \<and> (\<forall>seg \<in> set segs. \<not> contains seg old) \<and> s = str_join old segs"
proof (induction s rule: length_induct)
  case (1 s)
  show ?case
  proof (cases "contains s old")
    case False
    then have "[s] \<noteq> [] \<and> (\<forall>seg \<in> set [s]. \<not> contains seg old) \<and> s = str_join old [s]"
      by simp
    then show ?thesis by blast
  next
    case True
    with assms obtain a b where ab: "s = a @ old @ b" "\<not> contains a old"
      using first_occurrence by blast
    with assms have "length b < length s" by simp
    with 1 obtain segs where segs: "segs \<noteq> []" "\<forall>seg \<in> set segs. \<not> contains seg old"
        "b = str_join old segs"
      by blast
    from segs(1) obtain y ys where y: "segs = y # ys" by (cases segs) auto
    have "s = str_join old (a # segs)" using ab(1) segs(3) by (simp add: y)
    moreover have "\<forall>seg \<in> set (a # segs). \<not> contains seg old" using ab(2) segs(2) by simp
    ultimately show ?thesis by blast
  qed
qed

text \<open>
  Claim C1, as the code has it. The HTML assembler replaces every occurrence of the
  link tag by the style element holding the normalized CSS, and every occurrence of the
  script tag by the script element holding the normalized JS: a text made of segments
  free of the tag, with the tag between each two neighbours, becomes the same segments
  with the inline element between each two neighbours. By \<open>str_join_decomposition\<close> every
  markup is such a text.
\<close>

theorem inject_replaces_every_occurrence:
  "((\<forall>seg \<in> set segs. \<not> contains seg LINK_TAG) \<longrightarrow>
      inject_css (str_join LINK_TAG segs) css
        = str_join (str ''<style>'' @ css @ str ''</style>'') segs)
   \<and> ((\<forall>seg \<in> set segs. \<not> contains seg SCRIPT_TAG) \<longrightarrow>
      inject_js (str_join SCRIPT_TAG segs) js
        = str_join (str ''<script>'' @ js @ str ''</script>'') segs)"
  using LINK_TAG_shape SCRIPT_TAG_shape
  by (simp add: inject_css_def inject_js_def str_replace_join)

theorem inject_replaces_every_occurrence_witness:
  "\<not> contains (str ''<p>'') LINK_TAG \<and> \<not> contains (str ''<b>'') LINK_TAG
   \<and> \<not> contains (str ''</p>'') LINK_TAG
   \<and> inject_css (str ''<p>'' @ LINK_TAG @ str ''<b>'' @ LINK_TAG @ str ''</p>'') (str ''a{}'')
       = str ''<p><style>a{}</style><b><style>a{}</style></p>''"
proof -
  have a: "\<forall>seg \<in> set [str ''<p>'', str ''<b>'', str ''</p>'']. \<not> contains seg LINK_TAG"
    by (simp add: LINK_TAG_def str_def)
  from inject_replaces_every_occurrence [of "[str ''<p>'', str ''<b>'', str ''</p>'']" "str ''a{}''"] a
  have "inject_css (str_join LINK_TAG [str ''<p>'', str ''<b>'', str ''</p>'']) (str ''a{}'')
        = str_join (str ''<style>'' @ str ''a{}'' @ str ''</style>'') [str ''<p>'', str ''<b>'', str ''</p>'']"
    by blast
  then have "inject_css (str ''<p>'' @ LINK_TAG @ str ''<b>'' @ LINK_TAG @ str ''</p>'') (str ''a{}'')
        = str ''<p><style>a{}</style><b><style>a{}</style></p>''"
    by (simp add: str_def)
  with a show ?thesis by simp
qed

text \<open>
  Claim C1, as stated, fails. In a markup made of the link tag twice, the assembler
  replaces both occurrences; replacing the first only would leave the second tag in the
  output.
\<close>

theorem inject_first_only_counterexample:
  "inject_css (LINK_TAG @ LINK_TAG) (str ''a{}'') = str ''<style>a{}</style><style>a{}</style>''
   \<and> spec_replace_first (LINK_TAG @ LINK_TAG) LINK_TAG (str ''<style>'' @ str ''a{}'' @ str ''</style>'')
       = str ''<style>a{}</style>'' @ LINK_TAG
   \<and> inject_css (LINK_TAG @ LINK_TAG) (str ''a{}'')
       \<noteq> spec_replace_first (LINK_TAG @ LINK_TAG) LINK_TAG (str ''<style>'' @ str ''a{}'' @ str ''</style>'')"
  by (simp add: inject_css_def LINK_TAG_def str_def)

text \<open>
  Claim C8. On a markup that does not contain the link tag, the substitution of the
  link tag returns the markup unchanged; on a markup that does not contain the script
  tag, the substitution of the script tag returns the markup unchanged. Neither is an
  error.
\<close>

theorem inject_absent_tag:
  "(\<not> contains html LINK_TAG \<longrightarrow> inject_css html css = html)
   \<and> (\<not> contains html SCRIPT_TAG \<longrightarrow> inject_js html js = html)"
  by (simp add: inject_css_def inject_js_def str_replace_absent)

theorem inject_absent_tag_witness:
  "\<not> contains (str ''<html></html>'') LINK_TAG
   \<and> \<not> contains (str ''<html></html>'') SCRIPT_TAG
   \<and> inject_css (str ''<html></html>'') (str ''a{}'') = str ''<html></html>''
   \<and> inject_js (str ''<html></html>'') (str ''f();'') = str ''<html></html>''"
proof -
  have a: "\<not> contains (str ''<html></html>'') LINK_TAG"
    by (simp add: LINK_TAG_def str_def)
  have b: "\<not> contains (str ''<html></html>'') SCRIPT_TAG"
    by (simp add: SCRIPT_TAG_def str_def)
  from inject_absent_tag [of "str ''<html></html>''" "str ''a{}''" "str ''f();''"] a b
  show ?thesis by simp
qed

section \<open>Properties of the run\<close>

lemma write_header_content:
  "\<not> write_protected w ''WebContent.h'' \<Longrightarrow>
   \<exists>w'. write_header e w = Inr w' \<and> files w' ''WebContent.h'' = Some (spec_header e)
        \<and> (\<forall>path. path \<noteq> ''WebContent.h'' \<longrightarrow> files w' path = files w path)
        \<and> stdout w' = stdout w"
  by (simp add: write_header_def open_w_def fwrite_def spec_header_def str_def Let_def)

lemma main_success:
  assumes "files w ''data/index.html'' = Some html"
      and "files w ''data/style.css'' = Some css_text"
      and "files w ''data/app.js'' = Some js_text"
      and "\<not> write_protected w ''WebContent.h''"
  shows "\<exists>w'. main w = (Inr (), w') \<and>
           files w' ''WebContent.h'' =
             Some (spec_header (escape_for_c (inject_js (inject_css html (minify_css css_text)) (minify_js js_text))))"
proof -
  let ?e = "escape_for_c (inject_js (inject_css html (minify_css css_text)) (minify_js js_text))"
  from write_header_content [OF assms(4), of ?e]
  obtain w1 where w1: "write_header ?e w = Inr w1" "files w1 ''WebContent.h'' = Some (spec_header ?e)"
    by blast
  show ?thesis
    using assms(1-3) w1 by (simp add: main_def read_text_def Let_def print_line_def)
qed

text \<open>
  Claim C6. When the read of the markup file, of the stylesheet file or of the script
  file fails, the run ends with that error before the header file is opened: the world
  after the run is the world before it, so nothing is written and nothing is printed.
\<close>

theorem main_read_failure_aborts:
  "files w ''data/index.html'' = None \<or> files w ''data/style.css'' = None
     \<or> files w ''data/app.js'' = None \<Longrightarrow>
   \<exists>path. main w = (Inl (FileAccessError path), w)"
  by (auto simp: main_def read_text_def Let_def split: option.splits sum.splits)

theorem main_read_failure_aborts_witness:
  "files example_world ''data/app.js'' = None
   \<and> main example_world = (Inl (FileAccessError ''data/app.js''), example_world)"
proof -
  have a: "files example_world ''data/app.js'' = None"
    by (simp add: example_world_def)
  then have "\<exists>path. main example_world = (Inl (FileAccessError path), example_world)"
    using main_read_failure_aborts [of example_world] by blast
  moreover have "fst (main example_world) = Inl (FileAccessError ''data/app.js'')"
    by (simp add: example_world_def main_def read_text_def Let_def)
  ultimately show ?thesis using a by auto
qed

text \<open>
  Claim C7. For every escaped literal \<open>e\<close>, the text written to the header file is the
  header guard pair, the include, the declaration of the array \<^verbatim>\<open>INDEX_HTML\<close> holding \<open>e\<close>
  between double quotes and ended by a semicolon, and the closing \<^verbatim>\<open>#endif\<close>, exactly as
  in the concatenation below, and nothing else.
\<close>

theorem write_header_exact:
  \<open>\<not> write_protected w ''WebContent.h'' \<Longrightarrow>
   \<exists>w'. write_header e w = Inr w' \<and>
     files w' ''WebContent.h'' =
       Some (str ''#ifndef WEB_CONTENT_H\<newline>#define WEB_CONTENT_H\<newline>\<newline>#include <pgmspace.h>\<newline>\<newline>const char INDEX_HTML[] PROGMEM = "''
             @ e @ str ''";\<newline>\<newline>#endif\<newline>'')\<close>
  using write_header_content [of w e] by (auto simp: spec_header_def)

theorem write_header_exact_witness:
  \<open>\<not> write_protected example_world ''WebContent.h''
   \<and> (\<exists>w'. write_header (str ''<p>'') example_world = Inr w'
        \<and> files w' ''WebContent.h'' = Some (str ''#ifndef WEB_CONTENT_H\<newline>#define WEB_CONTENT_H\<newline>\<newline>#include <pgmspace.h>\<newline>\<newline>const char INDEX_HTML[] PROGMEM = "<p>";\<newline>\<newline>#endif\<newline>''))\<close>
proof -
  have h: "\<not> write_protected example_world ''WebContent.h''"
    by (simp add: example_world_def)
  from write_header_exact [OF h, of \<open>str ''<p>''\<close>] show ?thesis
    using h by (auto simp: str_def)
qed

text \<open>
  The first end-to-end scenario of the specification, run through \<open>main\<close>: the header
  file holds the markup with the compacted stylesheet inline.
\<close>

lemma scenario_1:
  \<open>\<exists>w'. main scenario_world = (Inr (), w') \<and>
     files w' ''WebContent.h'' = Some (spec_header (str ''<html><style>a{color:red;}</style></html>''))\<close>
proof -
  have css: "minify_css (str ''a{color:  red;}'') = str ''a{color:red;}''"
    by (simp add: minify_css_def str_def strip_def isspace_def is_special_def)
  have html: \<open>inject_css (str ''<html><link rel="stylesheet" href="style.css"></html>'') (str ''a{color:red;}'')
      = str ''<html><style>a{color:red;}</style></html>''\<close>
    by (simp add: inject_css_def LINK_TAG_def str_def)
  have js: "inject_js (str ''<html><style>a{color:red;}</style></html>'') j = str ''<html><style>a{color:red;}</style></html>''" for j
    unfolding inject_js_def by (rule str_replace_absent) (simp add: SCRIPT_TAG_def str_def)
  have esc: "escape_for_c (str ''<html><style>a{color:red;}</style></html>'') = str ''<html><style>a{color:red;}</style></html>''"
    by (simp add: escape_for_c_Cons escape_for_c_Nil spec_escape_char_def str_def)
  have \<open>\<exists>w'. main scenario_world = (Inr (), w') \<and>
           files w' ''WebContent.h'' =
             Some (spec_header (escape_for_c (inject_js (inject_css (str ''<html><link rel="stylesheet" href="style.css"></html>'') (minify_css (str ''a{color:  red;}''))) (minify_js (str ''foo();\<newline>\<newline>bar();'')))))\<close>
    by (rule main_success) (simp_all add: scenario_world_def)
  then show ?thesis by (simp only: css html js esc)
qed

end
